theory Spec2Isabelle
  imports Main "HOL-Library.Sublist"
begin

section \<open>Strings\<close>

text \<open>
  A Python \<open>str\<close> is a sequence of code points. The model covers the strings whose code
  points lie in U+0000..U+00FF: such a string is a \<open>string\<close> (a list of \<open>char\<close>), and
  \<open>of_char c\<close> is the code point of \<open>c\<close>. On this range \<open>str.lower\<close> maps one code
  point to one code point and stays inside the range.
\<close>

definition isspace :: "char \<Rightarrow> bool" where
  \<comment> \<open>what \<open>\\s\<close> of \<open>re\<close> (on \<open>str\<close> patterns) and \<open>str.strip\<close> take for whitespace:
      U+0009..U+000D, U+001C..U+0020, U+0085, U+00A0\<close>
  "isspace c =
     (let n = (of_char c :: nat)
      in (9 \<le> n \<and> n \<le> 13) \<or> (28 \<le> n \<and> n \<le> 32) \<or> n = 133 \<or> n = 160)"

definition is_az :: "char \<Rightarrow> bool" where
  \<comment> \<open>the character class \<open>a-z\<close>\<close>
  "is_az c = (let n = (of_char c :: nat) in 97 \<le> n \<and> n \<le> 122)"

definition lower_char :: "char \<Rightarrow> char" where
  \<comment> \<open>\<open>str.lower\<close> on one code point: A..Z and U+00C0..U+00DE (without U+00D7) move up
      by 32, every other code point of the range is kept\<close>
  "lower_char c =
     (let n = (of_char c :: nat)
      in if (65 \<le> n \<and> n \<le> 90) \<or> (192 \<le> n \<and> n \<le> 222 \<and> n \<noteq> 215)
         then char_of (n + 32) else c)"

definition lower :: "string \<Rightarrow> string" where
  "lower s = map lower_char s"

section \<open>Text cleaning\<close>

definition url_match :: "string \<Rightarrow> nat option" where
  \<comment> \<open>\<open>http\\S+\<close> tried at the head of the string: the length of the greedy match\<close>
  "url_match s =
     (if take 4 s = ''http'' \<and> drop 4 s \<noteq> [] \<and> \<not> isspace (hd (drop 4 s))
      then Some (4 + length (takeWhile (\<lambda>c. \<not> isspace c) (drop 4 s)))
      else None)"

function sub_url :: "string \<Rightarrow> string" where
  \<comment> \<open>\<open>re.sub(r"http\\S+", "", text)\<close>: leftmost matches, one after the other\<close>
  "sub_url [] = []"
| "sub_url (c # cs) =
     (case url_match (c # cs) of
        Some n \<Rightarrow> sub_url (drop n (c # cs))
      | None \<Rightarrow> c # sub_url cs)"
  by pat_completeness auto
termination
  by (relation "measure length") (auto simp: url_match_def split: if_splits)

definition sub_nonalpha :: "string \<Rightarrow> string" where
  \<comment> \<open>\<open>re.sub(r"[^a-z\\s]", "", text)\<close>\<close>
  "sub_nonalpha s = filter (\<lambda>c. is_az c \<or> isspace c) s"

function sub_ws :: "string \<Rightarrow> string" where
  \<comment> \<open>\<open>re.sub(r"\\s+", " ", text)\<close>\<close>
  "sub_ws [] = []"
| "sub_ws (c # cs) =
     (if isspace c then CHR '' '' # sub_ws (dropWhile isspace cs) else c # sub_ws cs)"
  by pat_completeness auto
termination
  by (relation "measure length") (auto simp: less_Suc_eq_le length_dropWhile_le)

definition strip :: "string \<Rightarrow> string" where
  "strip s = rev (dropWhile isspace (rev (dropWhile isspace s)))"

definition clean_text :: "string \<Rightarrow> string" where
  "clean_text text = strip (sub_ws (sub_nonalpha (sub_url (lower text))))"

fun has_url :: "string \<Rightarrow> bool" where
  \<comment> \<open>some position of the string starts a match of \<open>http\\S+\<close>\<close>
  "has_url [] = False"
| "has_url (c # cs) = (url_match (c # cs) \<noteq> None \<or> has_url cs)"

definition normal_form :: "string \<Rightarrow> bool" where
  \<comment> \<open>the shape of a cleaned text: letters a..z and single blanks between them\<close>
  "normal_form t =
     ((\<forall>c\<in>set t. is_az c \<or> c = CHR '' '') \<and>
      successively (\<lambda>a b. \<not> (isspace a \<and> isspace b)) t \<and>
      (t = [] \<or> (\<not> isspace (hd t) \<and> \<not> isspace (last t))))"

section \<open>Highlighting\<close>

function replace :: "string \<Rightarrow> string \<Rightarrow> string \<Rightarrow> string" where
  \<comment> \<open>\<open>text.replace(old, new)\<close>: the occurrences of \<open>old\<close> from the left, without
      overlap; an empty \<open>old\<close> matches before every character and at the end\<close>
  "replace [] new text = new @ concat (map (\<lambda>c. c # new) text)"
| "replace (a # old) new [] = []"
| "replace (a # old) new (c # cs) =
     (if prefix (a # old) (c # cs)
      then new @ replace (a # old) new (drop (length (a # old)) (c # cs))
      else c # replace (a # old) new cs)"
  by pat_completeness auto
termination
  by (relation "measure (\<lambda>(old, new, text). length text)") auto

definition upper_char :: "char \<Rightarrow> char" where
  \<comment> \<open>\<open>str.upper\<close> on one of the letters a..z; \<open>capitalize\<close> below is only applied to the
      words of \<open>suspicious_words\<close>, which are made of these letters\<close>
  "upper_char c = (if is_az c then char_of ((of_char c :: nat) - 32) else c)"

fun capitalize :: "string \<Rightarrow> string" where
  "capitalize [] = []"
| "capitalize (c # cs) = upper_char c # lower cs"

definition suspicious_words :: "string list" where
  "suspicious_words =
     [''urgent'', ''verify'', ''click'', ''password'',
      ''bank'', ''account'', ''login'', ''confirm'']"

definition span :: "string \<Rightarrow> string" where
  \<comment> \<open>the f-string \<open><span class='highlight'>{word}</span>\<close>; \<open>CHR 0x27\<close> is the single quote\<close>
  "span word =
     ''<span class='' @ [CHR 0x27] @ ''highlight'' @ [CHR 0x27] @ ''>'' @ word @ ''</span>''"

definition highlight_word :: "string \<Rightarrow> string \<Rightarrow> string" where
  \<comment> \<open>the body of the loop over \<open>suspicious_words\<close>\<close>
  "highlight_word highlighted_text word =
     replace (capitalize word) (span (capitalize word))
       (replace word (span word) highlighted_text)"

definition highlight :: "string \<Rightarrow> string" where
  "highlight email_text = foldl highlight_word email_text suspicious_words"

text \<open>
  The highlighting as the specification words it: one pass over the text from the left
  that wraps every occurrence of a pattern, the patterns being the lowercase and the
  capitalized form of each suspicious word.
\<close>

definition marked_forms :: "string list" where
  "marked_forms =
     [''urgent'', ''Urgent'', ''verify'', ''Verify'', ''click'', ''Click'',
      ''password'', ''Password'', ''bank'', ''Bank'', ''account'', ''Account'',
      ''login'', ''Login'', ''confirm'', ''Confirm'']"

definition occurs_at :: "string list \<Rightarrow> string \<Rightarrow> string option" where
  \<comment> \<open>the first pattern of the list that occurs at the head of the text\<close>
  "occurs_at ps text = find (\<lambda>p. p \<noteq> [] \<and> prefix p text) ps"

function wrap_occurrences :: "string list \<Rightarrow> string \<Rightarrow> string" where
  "wrap_occurrences ps [] = []"
| "wrap_occurrences ps (c # cs) =
     (case occurs_at ps (c # cs) of
        Some p \<Rightarrow> span p @ wrap_occurrences ps (drop (length p) (c # cs))
      | None \<Rightarrow> c # wrap_occurrences ps cs)"
  by pat_completeness auto
termination
proof (relation "measure (\<lambda>(ps, text). length text)")
  show "wf (measure (\<lambda>(ps, text). length text))" by simp
next
  fix ps :: "string list" and c :: char and cs p
  assume "occurs_at ps (c # cs) = Some p"
  then have "p \<noteq> []" by (auto simp: occurs_at_def find_Some_iff)
  then show "((ps, drop (length p) (c # cs)), (ps, c # cs)) \<in> measure (\<lambda>(ps, text). length text)"
    by (cases p) auto
next
  fix ps :: "string list" and c :: char and cs
  show "((ps, cs), (ps, c # cs)) \<in> measure (\<lambda>(ps, text). length text)" by simp
qed

text \<open>
  What the patterns of a list need for the replacements one after the other to find the
  same occurrences as one pass: no pattern holds an angle bracket, occurs inside the span
  of another, or overlaps another.
\<close>

definition no_overlap :: "string \<Rightarrow> string \<Rightarrow> bool" where
  \<comment> \<open>no proper suffix of \<open>p\<close> starts \<open>q\<close> or is started by \<open>q\<close>\<close>
  "no_overlap p q =
     list_all (\<lambda>j. \<not> prefix q (drop j p) \<and> \<not> prefix (drop j p) q) [1..<length p]"

definition separable :: "string list \<Rightarrow> bool" where
  "separable ps =
     (distinct ps \<and>
      list_all (\<lambda>p. p \<noteq> [] \<and> CHR ''<'' \<notin> set p \<and> CHR ''>'' \<notin> set p \<and>
                   list_all (\<lambda>q. q = p \<or> (\<not> sublist p (span q) \<and> no_overlap p q)) ps) ps)"

section \<open>Errors\<close>

datatype error =
  BadRequestKeyError string  \<comment> \<open>\<open>request.form[key]\<close> on a form without the key\<close>
| KeyError string  \<comment> \<open>\<open>session[key]\<close> on a session without the key\<close>
| OverflowError  \<comment> \<open>an \<open>int\<close> bound to a statement that does not fit SQLite's INTEGER\<close>

section \<open>Database\<close>

record 'c scan_row =
  scan_id :: nat
  email :: string
  result :: string
  confidence :: 'c

record game_row =
  game_id :: nat
  score :: int
  total :: int
  level :: string

text \<open>
  A table is the list of its rows in the order of insertion, with the counter that
  AUTOINCREMENT keeps for it: an insert takes the next value for the id. The application
  never sets an id itself and never updates or deletes a row.
\<close>

record 'c database =
  scans :: "'c scan_row list"
  scans_seq :: nat
  game_scores :: "game_row list"
  game_scores_seq :: nat

definition init_db :: "'c database" where
  \<comment> \<open>both tables created on a new database file\<close>
  "init_db = \<lparr>scans = [], scans_seq = 0, game_scores = [], game_scores_seq = 0\<rparr>"

definition insert_scan :: "'c database \<Rightarrow> string \<Rightarrow> string \<Rightarrow> 'c \<Rightarrow> 'c database" where
  \<comment> \<open>\<open>INSERT INTO scans (email, result, confidence) VALUES (?, ?, ?)\<close>\<close>
  "insert_scan db e r c =
     db\<lparr>scans := scans db @
            [\<lparr>scan_id = Suc (scans_seq db), email = e, result = r, confidence = c\<rparr>],
        scans_seq := Suc (scans_seq db)\<rparr>"

definition sqlite_int :: "int \<Rightarrow> bool" where
  \<comment> \<open>the values that SQLite's INTEGER holds: the signed 64-bit range\<close>
  "sqlite_int v = (- (2 ^ 63) \<le> v \<and> v < 2 ^ 63)"

definition append_game_score :: "'c database \<Rightarrow> int \<Rightarrow> int \<Rightarrow> string \<Rightarrow> 'c database" where
  \<comment> \<open>the database once the row is in \<open>game_scores\<close>\<close>
  "append_game_score db s t l =
     db\<lparr>game_scores := game_scores db @
            [\<lparr>game_id = Suc (game_scores_seq db), score = s, total = t, level = l\<rparr>],
        game_scores_seq := Suc (game_scores_seq db)\<rparr>"

definition insert_game_score ::
  "'c database \<Rightarrow> int \<Rightarrow> int \<Rightarrow> string \<Rightarrow> error + 'c database"
where
  \<comment> \<open>\<open>INSERT INTO game_scores (score, total, level) VALUES (?, ?, ?)\<close>: binding an
      \<open>int\<close> outside the signed 64-bit range raises, and no row is inserted\<close>
  "insert_game_score db s t l =
     (if sqlite_int s \<and> sqlite_int t then Inr (append_game_score db s t l)
      else Inl OverflowError)"

definition history :: "'c database \<Rightarrow> (string \<times> string \<times> 'c) list" where
  \<comment> \<open>\<open>SELECT email, result, confidence FROM scans ORDER BY id DESC\<close>\<close>
  "history db =
     map (\<lambda>r. (email r, result r, confidence r)) (rev (sort_key scan_id (scans db)))"

definition scores :: "'c database \<Rightarrow> (int \<times> int \<times> string) list" where
  \<comment> \<open>\<open>SELECT score, total, level FROM game_scores ORDER BY id DESC\<close>\<close>
  "scores db =
     map (\<lambda>r. (score r, total r, level r)) (rev (sort_key game_id (game_scores db)))"

section \<open>Requests\<close>

datatype http_method = GET | POST

text \<open>
  \<open>request.form\<close> is a multi-dict: the fields of the form in the order sent, and
  \<open>request.form[key]\<close> is the first value of the key.
\<close>

type_synonym form_data = "(string \<times> string) list"

section \<open>The detector\<close>

text \<open>
  The fitted pipeline is a parameter of the handler: \<open>predict\<close> stands for
  \<open>model.predict([text])[0]\<close> and \<open>predict_conf\<close> for
  \<open>round(model.predict_proba([text]).max() * 100, 2)\<close>, a float whose type is left open.
\<close>

record 'c classifier =
  predict :: "string \<Rightarrow> string"
  predict_conf :: "string \<Rightarrow> 'c"

record 'c home_page =
  page_result :: "string option"
  page_confidence :: "'c option"
  page_email_text :: string
  page_highlighted_text :: string

definition home ::
  "'c classifier \<Rightarrow> http_method \<Rightarrow> form_data \<Rightarrow> 'c database \<Rightarrow> error + ('c database \<times> 'c home_page)"
where
  "home model meth frm db =
     (if meth = POST then
        (case map_of frm ''email'' of
           None \<Rightarrow> Inl (BadRequestKeyError ''email'')
         | Some email_text \<Rightarrow>
             (let cleaned_email = clean_text email_text;
                  res = predict model cleaned_email;
                  conf = predict_conf model cleaned_email;
                  db' = insert_scan db email_text res conf;
                  highlighted_text =
                    (if res = ''FRAUD'' then highlight email_text else email_text)
              in Inr (db', \<lparr>page_result = Some res, page_confidence = Some conf,
                           page_email_text = email_text,
                           page_highlighted_text = highlighted_text\<rparr>)))
      else Inr (db, \<lparr>page_result = None, page_confidence = None,
                     page_email_text = [], page_highlighted_text = []\<rparr>))"

fun run_home ::
  "'c classifier \<Rightarrow> (http_method \<times> form_data) list \<Rightarrow> 'c database \<Rightarrow> error + 'c database"
where
  \<comment> \<open>requests to \<open>/\<close> one after the other, up to the first that fails\<close>
  "run_home model [] db = Inr db"
| "run_home model ((meth, frm) # reqs) db =
     (case home model meth frm db of
        Inl e \<Rightarrow> Inl e
      | Inr (db', page) \<Rightarrow> run_home model reqs db')"

definition submit :: "string \<Rightarrow> http_method \<times> form_data" where
  \<comment> \<open>the POST of the scan form with the text typed into it\<close>
  "submit email_text = (POST, [(''email'', email_text)])"

definition stub_model :: "nat classifier" where
  \<comment> \<open>a classifier for concrete runs: FRAUD for every text that is not empty\<close>
  "stub_model =
     \<lparr>predict = (\<lambda>t. if t = [] then ''SAFE'' else ''FRAUD''), predict_conf = length\<rparr>"

section \<open>The training game\<close>

record question =
  qtext :: string  \<comment> \<open>the key \<open>text\<close>\<close>
  answer :: string
  reason :: string

definition QUIZ_QUESTIONS :: "question list" where
  "QUIZ_QUESTIONS =
     [\<lparr>qtext = ''Urgent! Verify your account immediately.'', answer = ''FRAUD'',
       reason = ''Creates urgency and asks for action.''\<rparr>,
      \<lparr>qtext = ''Meeting scheduled tomorrow at 3 PM.'', answer = ''SAFE'',
       reason = ''Normal internal communication.''\<rparr>,
      \<lparr>qtext = ''Click here to reset your password.'', answer = ''FRAUD'',
       reason = ''Suspicious link asking for credentials.''\<rparr>,
      \<lparr>qtext = ''Invoice attached. Please review.'', answer = ''SAFE'',
       reason = ''Common business email.''\<rparr>]"

type_synonym session = "string \<rightharpoonup> int"

datatype feedback =
  Correct string  \<comment> \<open>the success marker, then the reason\<close>
| Wrong string  \<comment> \<open>the failure marker, then the reason\<close>

record game_page =
  page_question :: question
  page_feedback :: "feedback option"
  page_score :: int
  page_total :: int
  page_level :: string

definition level_of :: "int \<Rightarrow> string" where
  "level_of sc =
     (if sc < 3 then ''Beginner'' else if sc < 6 then ''Intermediate'' else ''Expert'')"

definition session_start :: "session \<Rightarrow> session" where
  \<comment> \<open>\<open>if "score" not in session\<close>: both counters are set to 0\<close>
  "session_start s =
     (if s ''score'' = None then s(''score'' \<mapsto> 0, ''total'' \<mapsto> 0) else s)"

definition grade :: "form_data \<Rightarrow> session \<Rightarrow> error + (session \<times> feedback option)" where
  \<comment> \<open>the POST branch: the three fields are read first, then the counters move\<close>
  "grade frm s =
     (case map_of frm ''choice'' of
        None \<Rightarrow> Inl (BadRequestKeyError ''choice'')
      | Some user_choice \<Rightarrow>
     (case map_of frm ''correct'' of
        None \<Rightarrow> Inl (BadRequestKeyError ''correct'')
      | Some correct_answer \<Rightarrow>
     (case map_of frm ''reason'' of
        None \<Rightarrow> Inl (BadRequestKeyError ''reason'')
      | Some rsn \<Rightarrow>
     (case s ''total'' of
        None \<Rightarrow> Inl (KeyError ''total'')
      | Some t \<Rightarrow>
          (let s1 = s(''total'' \<mapsto> t + 1)
           in if user_choice = correct_answer
              then (case s1 ''score'' of
                      None \<Rightarrow> Inl (KeyError ''score'')
                    | Some sc \<Rightarrow> Inr (s1(''score'' \<mapsto> sc + 1), Some (Correct rsn)))
              else Inr (s1, Some (Wrong rsn)))))))"

definition game ::
  "nat \<Rightarrow> http_method \<Rightarrow> form_data \<Rightarrow> session \<Rightarrow> 'c database \<Rightarrow>
   error + (session \<times> 'c database \<times> game_page)"
where
  \<comment> \<open>\<open>pick\<close> is the draw of \<open>random.choice\<close>\<close>
  "game pick meth frm sess db =
     (let s0 = session_start sess;
          q = QUIZ_QUESTIONS ! (pick mod length QUIZ_QUESTIONS)
      in case (if meth = POST then grade frm s0 else Inr (s0, None)) of
           Inl e \<Rightarrow> Inl e
         | Inr (s1, fb) \<Rightarrow>
             (case s1 ''score'' of
                None \<Rightarrow> Inl (KeyError ''score'')
              | Some sc \<Rightarrow>
                  (let lvl = level_of sc
                   in case s1 ''total'' of
                        None \<Rightarrow> Inl (KeyError ''total'')
                      | Some tot \<Rightarrow>
                          (case insert_game_score db sc tot lvl of
                             Inl e \<Rightarrow> Inl e
                           | Inr db' \<Rightarrow>
                               Inr (s1, db',
                                    \<lparr>page_question = q, page_feedback = fb, page_score = sc,
                                     page_total = tot, page_level = lvl\<rparr>)))))"

definition reset_game :: "session \<Rightarrow> session" where
  \<comment> \<open>\<open>session.clear()\<close>; the redirect makes the browser send a GET to \<open>/game\<close>\<close>
  "reset_game sess = Map.empty"

datatype request = Game nat http_method form_data | ResetGame

fun run_game ::
  "request list \<Rightarrow> session \<Rightarrow> 'c database \<Rightarrow> error + (session \<times> 'c database)"
where
  \<comment> \<open>the requests of one browser session, up to the first that fails\<close>
  "run_game [] sess db = Inr (sess, db)"
| "run_game (Game pick meth frm # reqs) sess db =
     (case game pick meth frm sess db of
        Inl e \<Rightarrow> Inl e
      | Inr (sess', db', page) \<Rightarrow> run_game reqs sess' db')"
| "run_game (ResetGame # reqs) sess db = run_game reqs (reset_game sess) db"

fun graded_post :: "request \<Rightarrow> bool" where
  \<comment> \<open>a POST to \<open>/game\<close> that carries the three fields of the quiz form\<close>
  "graded_post (Game pick meth frm) =
     (meth = POST \<and> map_of frm ''choice'' \<noteq> None \<and> map_of frm ''correct'' \<noteq> None \<and>
      map_of frm ''reason'' \<noteq> None)"
| "graded_post ResetGame = False"

fun answered_correctly :: "request \<Rightarrow> bool" where
  \<comment> \<open>the test \<open>user_choice == correct_answer\<close> of a POST to \<open>/game\<close>\<close>
  "answered_correctly (Game pick meth frm) = (map_of frm ''choice'' = map_of frm ''correct'')"
| "answered_correctly ResetGame = False"

section \<open>Properties of the text cleaning\<close>

lemma is_az_not_space: "is_az c \<Longrightarrow> \<not> isspace c"
  by (auto simp: is_az_def isspace_def Let_def)

lemma lower_char_az: "is_az c \<Longrightarrow> lower_char c = c"
  by (auto simp: is_az_def lower_char_def Let_def)

lemma isspace_blank: "isspace CHR '' ''"
  by (simp add: isspace_def)

lemma lower_char_blank: "lower_char CHR '' '' = CHR '' ''"
  by (simp add: lower_char_def)

lemma length_sub_url_le: "length (sub_url s) \<le> length s"
  by (induction s rule: sub_url.induct) (auto split: option.splits)

lemma url_match_pos: "url_match s = Some n \<Longrightarrow> 0 < n"
  by (auto simp: url_match_def split: if_splits)

lemma sub_url_id: "\<not> has_url s \<Longrightarrow> sub_url s = s"
  by (induction s) auto

lemma sub_url_less: "has_url s \<Longrightarrow> length (sub_url s) < length s"
proof (induction s)
  case Nil
  then show ?case by simp
next
  case (Cons c cs)
  show ?case
  proof (cases "url_match (c # cs)")
    case None
    with Cons show ?thesis by simp
  next
    case (Some n)
    have "length (sub_url (drop n (c # cs))) \<le> length (drop n (c # cs))"
      by (rule length_sub_url_le)
    moreover have "0 < n" using Some by (rule url_match_pos)
    ultimately show ?thesis using Some by simp
  qed
qed

lemma length_sub_ws_le: "length (sub_ws s) \<le> length s"
proof (induction s rule: sub_ws.induct)
  case 1
  then show ?case by simp
next
  case (2 c cs)
  have "length (dropWhile isspace cs) \<le> length cs" by (rule length_dropWhile_le)
  with 2 show ?case by auto
qed

lemma length_strip_le: "length (strip s) \<le> length s"
proof -
  have "length (strip s) \<le> length (dropWhile isspace s)"
    unfolding strip_def using length_dropWhile_le [of isspace "rev (dropWhile isspace s)"] by simp
  also have "\<dots> \<le> length s" by (rule length_dropWhile_le)
  finally show ?thesis .
qed

lemma sub_ws_hd: "s \<noteq> [] \<Longrightarrow> \<not> isspace (hd s) \<Longrightarrow> sub_ws s \<noteq> [] \<and> hd (sub_ws s) = hd s"
  by (cases s) auto

lemma sub_ws_blank: "c \<in> set (sub_ws s) \<Longrightarrow> isspace c \<Longrightarrow> c = CHR '' ''"
  by (induction s rule: sub_ws.induct) (auto split: if_splits)

lemma set_sub_ws: "c \<in> set (sub_ws s) \<Longrightarrow> c \<in> set s \<or> c = CHR '' ''"
  by (induction s rule: sub_ws.induct) (auto split: if_splits dest: set_dropWhileD)

lemma sub_ws_succ: "successively (\<lambda>a b. \<not> (isspace a \<and> isspace b)) (sub_ws s)"
proof (induction s rule: sub_ws.induct)
  case 1
  then show ?case by simp
next
  case (2 c cs)
  show ?case
  proof (cases "isspace c")
    case True
    let ?r = "dropWhile isspace cs"
    have "?r = [] \<or> \<not> isspace (hd ?r)" using hd_dropWhile [of isspace cs] by blast
    then have "sub_ws ?r = [] \<or> \<not> isspace (hd (sub_ws ?r))"
    proof (cases "?r = []")
      case True
      then have "sub_ws ?r = []" by (simp only: sub_ws.simps)
      then show ?thesis ..
    next
      case False
      with \<open>?r = [] \<or> \<not> isspace (hd ?r)\<close> have "\<not> isspace (hd ?r)" by blast
      with False sub_ws_hd [of ?r] show ?thesis by simp
    qed
    with 2 True show ?thesis by (auto simp: successively_Cons)
  next
    case False
    with 2 show ?thesis by (auto simp: successively_Cons)
  qed
qed

lemma sub_ws_fixed:
  "\<forall>c\<in>set t. isspace c \<longrightarrow> c = CHR '' '' \<Longrightarrow>
   successively (\<lambda>a b. \<not> (isspace a \<and> isspace b)) t \<Longrightarrow> sub_ws t = t"
proof (induction t)
  case Nil
  then show ?case by simp
next
  case (Cons c cs)
  then have ih: "sub_ws cs = cs" by (auto simp: successively_Cons)
  show ?case
  proof (cases "isspace c")
    case True
    then have "cs = [] \<or> \<not> isspace (hd cs)" using Cons.prems(2) by (auto simp: successively_Cons)
    then have "dropWhile isspace cs = cs" by (cases cs) auto
    with True ih Cons.prems(1) show ?thesis by simp
  next
    case False
    with ih show ?thesis by simp
  qed
qed

lemma strip_decomp: "\<exists>p q. p @ strip w @ q = w"
proof -
  let ?a = "dropWhile isspace w"
  have "?a = rev (rev ?a)" by simp
  also have "\<dots> = rev (takeWhile isspace (rev ?a) @ dropWhile isspace (rev ?a))"
    by (simp only: takeWhile_dropWhile_id)
  also have "\<dots> = strip w @ rev (takeWhile isspace (rev ?a))"
    by (simp only: rev_append strip_def)
  finally have 2: "?a = strip w @ rev (takeWhile isspace (rev ?a))" .
  have "takeWhile isspace w @ strip w @ rev (takeWhile isspace (rev ?a)) = w"
    using 2 by (metis takeWhile_dropWhile_id)
  then show ?thesis by blast
qed

lemma strip_ends: "strip w = [] \<or> (\<not> isspace (hd (strip w)) \<and> \<not> isspace (last (strip w)))"
proof (cases "strip w = []")
  case True
  then show ?thesis ..
next
  case False
  let ?a = "dropWhile isspace w"
  let ?b = "dropWhile isspace (rev ?a)"
  have sw: "strip w = rev ?b" by (simp add: strip_def)
  with False have b: "?b \<noteq> []" by simp
  have a: "?a \<noteq> []"
  proof
    assume "?a = []"
    then have "?b = []" by (simp only: rev.simps dropWhile.simps)
    with b show False ..
  qed
  have hb: "\<not> isspace (hd ?b)" using b by (rule hd_dropWhile)
  then have 1: "\<not> isspace (last (strip w))" using b sw by (simp add: last_rev)
  have "hd ?b \<in> set ?b" using b by (rule hd_in_set)
  then have "hd ?b \<in> set (rev ?a)" by (rule set_dropWhileD)
  then have "last ?b = last (rev ?a)" using hb by (rule dropWhile_last)
  also have "\<dots> = hd ?a" using a by (simp add: last_rev)
  finally have "hd (strip w) = hd ?a" using b sw by (simp add: hd_rev)
  moreover have "\<not> isspace (hd ?a)" using a by (rule hd_dropWhile)
  ultimately have 2: "\<not> isspace (hd (strip w))" by simp
  from 1 2 show ?thesis by simp
qed

lemma strip_fixed: "t = [] \<or> (\<not> isspace (hd t) \<and> \<not> isspace (last t)) \<Longrightarrow> strip t = t"
proof (cases "t = []")
  case True
  then show ?thesis by (simp add: strip_def)
next
  case False
  assume "t = [] \<or> (\<not> isspace (hd t) \<and> \<not> isspace (last t))"
  with False have h: "\<not> isspace (hd t)" and l: "\<not> isspace (last t)" by auto
  from False h have 1: "dropWhile isspace t = t" by (cases t) auto
  from False l have "\<not> isspace (hd (rev t))" by (simp add: hd_rev)
  with False have 2: "dropWhile isspace (rev t) = rev t" by (cases "rev t") auto
  from 1 2 show ?thesis by (simp add: strip_def)
qed

lemma set_strip: "set (strip w) \<subseteq> set w"
proof -
  obtain p q where e: "p @ strip w @ q = w" using strip_decomp by blast
  have "set (strip w) \<subseteq> set (p @ strip w @ q)" by auto
  then show ?thesis by (simp only: e)
qed

lemma succ_strip: "successively P w \<Longrightarrow> successively P (strip w)"
proof -
  assume a: "successively P w"
  obtain p q where e: "p @ strip w @ q = w" using strip_decomp by blast
  from a have "successively P (p @ strip w @ q)" by (simp only: e)
  then show ?thesis by (simp add: successively_append_iff)
qed

lemma clean_text_normal_form: "normal_form (clean_text s)"
proof -
  let ?y = "sub_nonalpha (sub_url (lower s))"
  have 1: "\<forall>c\<in>set (clean_text s). is_az c \<or> c = CHR '' ''"
  proof
    fix c assume "c \<in> set (clean_text s)"
    then have c: "c \<in> set (sub_ws ?y)" using set_strip [of "sub_ws ?y"] by (auto simp: clean_text_def)
    show "is_az c \<or> c = CHR '' ''"
    proof (cases "isspace c")
      case True
      with c show ?thesis by (auto dest: sub_ws_blank)
    next
      case False
      from c have "c \<in> set ?y \<or> c = CHR '' ''" by (rule set_sub_ws)
      with False show ?thesis by (auto simp: sub_nonalpha_def)
    qed
  qed
  have 2: "successively (\<lambda>a b. \<not> (isspace a \<and> isspace b)) (clean_text s)"
    unfolding clean_text_def by (rule succ_strip) (rule sub_ws_succ)
  have 3: "clean_text s = [] \<or> (\<not> isspace (hd (clean_text s)) \<and> \<not> isspace (last (clean_text s)))"
    unfolding clean_text_def by (rule strip_ends)
  from 1 2 3 show ?thesis unfolding normal_form_def by blast
qed

lemma plain_lower:
  assumes "\<forall>c\<in>set t. is_az c \<or> c = CHR '' ''"
  shows "lower t = t"
proof -
  have "lower_char c = c" if "c \<in> set t" for c
  proof -
    from that assms have "is_az c \<or> c = CHR '' ''" by blast
    then show ?thesis
    proof
      assume "is_az c"
      then show ?thesis by (rule lower_char_az)
    next
      assume "c = CHR '' ''"
      then show ?thesis by (simp only: lower_char_blank)
    qed
  qed
  then show ?thesis unfolding lower_def by (intro map_idI)
qed

lemma plain_sub_nonalpha:
  assumes "\<forall>c\<in>set t. is_az c \<or> c = CHR '' ''"
  shows "sub_nonalpha t = t"
proof -
  have "is_az c \<or> isspace c" if "c \<in> set t" for c
  proof -
    from that assms have "is_az c \<or> c = CHR '' ''" by blast
    then show ?thesis using isspace_blank by blast
  qed
  then have "\<forall>c\<in>set t. is_az c \<or> isspace c" by blast
  then show ?thesis unfolding sub_nonalpha_def by (rule iffD2 [OF filter_id_conv])
qed

lemma plain_blank:
  assumes "\<forall>c\<in>set t. is_az c \<or> c = CHR '' ''"
  shows "\<forall>c\<in>set t. isspace c \<longrightarrow> c = CHR '' ''"
  using assms is_az_not_space by blast

lemma normal_form_steps:
  assumes "normal_form t"
  shows "lower t = t" and "sub_nonalpha t = t" and "sub_ws t = t" and "strip t = t"
proof -
  from assms have ch: "\<forall>c\<in>set t. is_az c \<or> c = CHR '' ''"
    unfolding normal_form_def by blast
  from ch show "lower t = t" by (rule plain_lower)
  from ch show "sub_nonalpha t = t" by (rule plain_sub_nonalpha)
  from ch have "\<forall>c\<in>set t. isspace c \<longrightarrow> c = CHR '' ''" by (rule plain_blank)
  moreover from assms have "successively (\<lambda>a b. \<not> (isspace a \<and> isspace b)) t"
    unfolding normal_form_def by blast
  ultimately show "sub_ws t = t" by (rule sub_ws_fixed)
  from assms have "t = [] \<or> (\<not> isspace (hd t) \<and> \<not> isspace (last t))"
    unfolding normal_form_def by blast
  then show "strip t = t" by (rule strip_fixed)
qed

lemma clean_text_fixed_iff:
  assumes "normal_form t"
  shows "clean_text t = t \<longleftrightarrow> \<not> has_url t"
proof
  assume "\<not> has_url t"
  then have "sub_url t = t" by (rule sub_url_id)
  with normal_form_steps [OF assms] show "clean_text t = t" by (simp add: clean_text_def)
next
  assume eq: "clean_text t = t"
  show "\<not> has_url t"
  proof
    assume "has_url t"
    then have lt: "length (sub_url t) < length t" by (rule sub_url_less)
    have "length (clean_text t) \<le> length (sub_ws (sub_nonalpha (sub_url (lower t))))"
      unfolding clean_text_def by (rule length_strip_le)
    also have "\<dots> \<le> length (sub_nonalpha (sub_url (lower t)))" by (rule length_sub_ws_le)
    also have "\<dots> \<le> length (sub_url (lower t))" by (simp add: sub_nonalpha_def)
    also have "\<dots> = length (sub_url t)" using normal_form_steps(1) [OF assms] by simp
    finally have "length (clean_text t) < length t" using lt by simp
    with eq show False by simp
  qed
qed

text \<open>
  C1 (as amended). Cleaning a text twice gives the same as cleaning it once exactly when
  the cleaned text holds no \<open>http\<close> followed by a further letter: the URL pattern is
  removed before the digits and the punctuation are, so a cleaned text can itself match
  it, and the second cleaning then removes the match.
\<close>

theorem clean_text_idempotent_iff:
  "clean_text (clean_text s) = clean_text s \<longleftrightarrow> \<not> has_url (clean_text s)"
  using clean_text_fixed_iff [OF clean_text_normal_form] .

theorem clean_text_idempotent_iff_witness:
  "\<not> has_url (clean_text ''HELLO http://x.com World!!'') \<and>
   clean_text (clean_text ''HELLO http://x.com World!!'') =
     clean_text ''HELLO http://x.com World!!''"
proof -
  have "\<not> has_url (clean_text ''HELLO http://x.com World!!'')" by code_simp
  then show ?thesis
    using clean_text_idempotent_iff [of "''HELLO http://x.com World!!''"] by blast
qed

theorem clean_text_not_idempotent:
  "clean_text (clean_text ''h1ttpa'') \<noteq> clean_text ''h1ttpa''"
  by code_simp

section \<open>Properties of the highlighting\<close>

lemma replace_hit: "old \<noteq> [] \<Longrightarrow> replace old new (old @ t) = new @ replace old new t"
  by (cases old) simp_all

lemma replace_miss:
  "old \<noteq> [] \<Longrightarrow> \<not> prefix old (c # t) \<Longrightarrow> replace old new (c # t) = c # replace old new t"
  by (cases old) auto

lemma replace_skip:
  "old \<noteq> [] \<Longrightarrow> \<forall>i<length m. \<not> prefix old (drop i m @ t) \<Longrightarrow>
   replace old new (m @ t) = m @ replace old new t"
proof (induction m)
  case Nil
  then show ?case by simp
next
  case (Cons c m)
  from Cons.prems(2) have "\<not> prefix old (drop 0 (c # m) @ t)" by blast
  then have 0: "\<not> prefix old (c # m @ t)" by simp
  have "\<forall>i<length m. \<not> prefix old (drop i m @ t)"
  proof (intro allI impI)
    fix i assume "i < length m"
    then have "Suc i < length (c # m)" by simp
    with Cons.prems(2) have "\<not> prefix old (drop (Suc i) (c # m) @ t)" by blast
    then show "\<not> prefix old (drop i m @ t)" by simp
  qed
  with Cons.IH Cons.prems(1) have "replace old new (m @ t) = m @ replace old new t" by blast
  with replace_miss [OF Cons.prems(1) 0] show ?case by simp
qed

lemma prefix_append_last:
  assumes "prefix p (u @ t)" and "u \<noteq> []" and "last u \<notin> set p"
  shows "prefix p u"
proof -
  from assms(1) have "prefix p u \<or> (\<exists>us. p = u @ us \<and> prefix us t)" by (simp add: prefix_append)
  then show ?thesis
  proof
    assume "prefix p u"
    then show ?thesis .
  next
    assume "\<exists>us. p = u @ us \<and> prefix us t"
    then obtain us where "p = u @ us" by blast
    with assms(2) have "last u \<in> set p" by simp
    with assms(3) show ?thesis by blast
  qed
qed

lemma last_span: "last (span q) = CHR ''>''"
  by (simp add: span_def)

lemma replace_over_span:
  assumes "old \<noteq> []" and "CHR ''>'' \<notin> set old" and "\<not> sublist old (span q)"
  shows "replace old new (span q @ t) = span q @ replace old new t"
proof (rule replace_skip [OF assms(1)], intro allI impI)
  fix i assume i: "i < length (span q)"
  show "\<not> prefix old (drop i (span q) @ t)"
  proof
    assume p: "prefix old (drop i (span q) @ t)"
    from i have ne: "drop i (span q) \<noteq> []" by simp
    with i have "last (drop i (span q)) = CHR ''>''" by (simp add: last_span)
    with assms(2) have "last (drop i (span q)) \<notin> set old" by simp
    from prefix_append_last [OF p ne this] have "prefix old (drop i (span q))" .
    moreover have "suffix (drop i (span q)) (span q)" by (rule suffix_drop)
    ultimately have "sublist old (span q)" unfolding sublist_altdef' by blast
    with assms(3) show False ..
  qed
qed

lemma occurs_at_Some: "occurs_at ps s = Some q \<Longrightarrow> q \<in> set ps \<and> q \<noteq> [] \<and> prefix q s"
  unfolding occurs_at_def by (induction ps) (auto split: if_splits)

lemma occurs_at_None: "occurs_at ps s = None \<longleftrightarrow> (\<forall>q\<in>set ps. q = [] \<or> \<not> prefix q s)"
  unfolding occurs_at_def by (auto simp: find_None_iff)

lemma occurs_at_append:
  "occurs_at (ps @ [p]) s =
     (case occurs_at ps s of
        Some q \<Rightarrow> Some q
      | None \<Rightarrow> if p \<noteq> [] \<and> prefix p s then Some p else None)"
  unfolding occurs_at_def by (induction ps) auto

lemma wrap_skip:
  "\<forall>i<length u. occurs_at ps (drop i u @ r) = None \<Longrightarrow>
   wrap_occurrences ps (u @ r) = u @ wrap_occurrences ps r"
proof (induction u)
  case Nil
  then show ?case by simp
next
  case (Cons c u)
  from Cons.prems have "occurs_at ps (drop 0 (c # u) @ r) = None" by blast
  then have 0: "occurs_at ps (c # u @ r) = None" by simp
  have "\<forall>i<length u. occurs_at ps (drop i u @ r) = None"
  proof (intro allI impI)
    fix i assume "i < length u"
    then have "Suc i < length (c # u)" by simp
    with Cons.prems have "occurs_at ps (drop (Suc i) (c # u) @ r) = None" by blast
    then show "occurs_at ps (drop i u @ r) = None" by simp
  qed
  with Cons.IH have "wrap_occurrences ps (u @ r) = u @ wrap_occurrences ps r" by blast
  with 0 show ?case by simp
qed

lemma hd_span: "span q = CHR ''<'' # tl (span q)"
  by (simp add: span_def)

lemma prefix_wrap:
  "CHR ''<'' \<notin> set p \<Longrightarrow> prefix p (wrap_occurrences ps s) \<Longrightarrow> prefix p s"
proof (induction ps s arbitrary: p rule: wrap_occurrences.induct)
  case (1 ps)
  then show ?case by simp
next
  case (2 ps c cs)
  show ?case
  proof (cases "occurs_at ps (c # cs)")
    case None
    with "2.prems"(2) have pre: "prefix p (c # wrap_occurrences ps cs)" by simp
    show ?thesis
    proof (cases p)
      case Nil
      then show ?thesis by simp
    next
      case (Cons a p')
      with pre have a: "a = c" and p': "prefix p' (wrap_occurrences ps cs)" by simp_all
      from "2.prems"(1) Cons have "CHR ''<'' \<notin> set p'" by simp
      from "2.IH"(1) [OF None this p'] have "prefix p' cs" .
      with a Cons show ?thesis by simp
    qed
  next
    case (Some q)
    with "2.prems"(2) have
      "prefix p (span q @ wrap_occurrences ps (drop (length q) (c # cs)))" by simp
    then have "prefix p (CHR ''<'' # tl (span q) @ wrap_occurrences ps (drop (length q) (c # cs)))"
      by (subst (asm) hd_span) simp
    with "2.prems"(1) have "p = []" by (cases p) auto
    then show ?thesis by simp
  qed
qed

lemma replace_Nil: "old \<noteq> [] \<Longrightarrow> replace old new [] = []"
  by (cases old) simp_all

lemma wrap_Nil: "wrap_occurrences [] s = s"
  by (induction s) (simp_all add: occurs_at_def)

lemma no_overlap_None:
  assumes "\<forall>q\<in>set ps. no_overlap p q" and "occurs_at ps (p @ r) = None"
  shows "\<forall>i<length p. occurs_at ps (drop i p @ r) = None"
proof (intro allI impI)
  fix i assume i: "i < length p"
  show "occurs_at ps (drop i p @ r) = None"
  proof (cases i)
    case 0
    with assms(2) show ?thesis by simp
  next
    case (Suc j)
    have "q = [] \<or> \<not> prefix q (drop i p @ r)" if "q \<in> set ps" for q
    proof (rule disjI2, rule notI)
      assume pre: "prefix q (drop i p @ r)"
      from that assms(1) have "no_overlap p q" by blast
      moreover from i Suc have "i \<in> set [1..<length p]" by simp
      ultimately have n: "\<not> prefix q (drop i p)" "\<not> prefix (drop i p) q"
        unfolding no_overlap_def list_all_iff by blast+
      from pre have "prefix q (drop i p) \<or> (\<exists>us. q = drop i p @ us \<and> prefix us r)"
        by (simp add: prefix_append)
      with n show False by auto
    qed
    then show ?thesis unfolding occurs_at_None by blast
  qed
qed

lemma replace_wrap:
  assumes p: "p \<noteq> []" "CHR ''<'' \<notin> set p" "CHR ''>'' \<notin> set p"
    and q: "\<forall>q\<in>set ps. \<not> sublist p (span q) \<and> no_overlap p q"
  shows "replace p (span p) (wrap_occurrences ps s) = wrap_occurrences (ps @ [p]) s"
proof (induction "length s" arbitrary: s rule: less_induct)
  case less
  show ?case
  proof (cases s)
    case Nil
    with p(1) show ?thesis by (simp add: replace_Nil)
  next
    case (Cons c cs)
    show ?thesis
    proof (cases "occurs_at ps s")
      case (Some w)
      then have w: "w \<in> set ps" "w \<noteq> []" "prefix w s" using occurs_at_Some by blast+
      let ?r = "drop (length w) s"
      from w(2) Cons have "length ?r < length s" by simp
      then have ih: "replace p (span p) (wrap_occurrences ps ?r) = wrap_occurrences (ps @ [p]) ?r"
        by (rule less)
      from Some Cons have 1: "wrap_occurrences ps s = span w @ wrap_occurrences ps ?r" by simp
      from Some have "occurs_at (ps @ [p]) s = Some w" by (simp add: occurs_at_append)
      with Cons have 2: "wrap_occurrences (ps @ [p]) s = span w @ wrap_occurrences (ps @ [p]) ?r"
        by simp
      from q w(1) have "\<not> sublist p (span w)" by blast
      from replace_over_span [OF p(1) p(3) this]
      have "replace p (span p) (span w @ wrap_occurrences ps ?r) =
              span w @ replace p (span p) (wrap_occurrences ps ?r)" .
      with 1 2 ih show ?thesis by simp
    next
      case None
      show ?thesis
      proof (cases "prefix p s")
        case True
        then obtain r where r: "s = p @ r" by (auto elim: prefixE)
        from p(1) r have "length r < length s" by simp
        then have ih: "replace p (span p) (wrap_occurrences ps r) = wrap_occurrences (ps @ [p]) r"
          by (rule less)
        from q have "\<forall>q\<in>set ps. no_overlap p q" by blast
        from no_overlap_None [OF this None [unfolded r]]
        have "wrap_occurrences ps (p @ r) = p @ wrap_occurrences ps r" by (rule wrap_skip)
        then have 1: "replace p (span p) (wrap_occurrences ps s) =
                        span p @ replace p (span p) (wrap_occurrences ps r)"
          using p(1) by (simp add: r replace_hit)
        from None True p(1) have "occurs_at (ps @ [p]) s = Some p"
          by (simp add: occurs_at_append)
        with Cons have "wrap_occurrences (ps @ [p]) s =
                          span p @ wrap_occurrences (ps @ [p]) (drop (length p) s)" by simp
        then have 2: "wrap_occurrences (ps @ [p]) s = span p @ wrap_occurrences (ps @ [p]) r"
          by (simp add: r)
        from 1 2 ih show ?thesis by simp
      next
        case False
        from less Cons
        have ih: "replace p (span p) (wrap_occurrences ps cs) = wrap_occurrences (ps @ [p]) cs"
          by simp
        from None Cons have 1: "wrap_occurrences ps s = c # wrap_occurrences ps cs" by simp
        have "\<not> prefix p (c # wrap_occurrences ps cs)"
        proof
          assume "prefix p (c # wrap_occurrences ps cs)"
          with 1 have "prefix p (wrap_occurrences ps s)" by simp
          with p(2) have "prefix p s" by (rule prefix_wrap)
          with False show False ..
        qed
        from replace_miss [OF p(1) this]
        have 2: "replace p (span p) (wrap_occurrences ps s) =
                   c # replace p (span p) (wrap_occurrences ps cs)"
          by (simp add: 1)
        from None False have "occurs_at (ps @ [p]) s = None" by (simp add: occurs_at_append)
        with Cons have 3: "wrap_occurrences (ps @ [p]) s = c # wrap_occurrences (ps @ [p]) cs"
          by simp
        from 2 3 ih show ?thesis by simp
      qed
    qed
  qed
qed

lemma separable_snoc:
  assumes "separable (ps @ [p])"
  shows "separable ps" and "p \<noteq> []" and "CHR ''<'' \<notin> set p" and "CHR ''>'' \<notin> set p"
    and "\<forall>q\<in>set ps. \<not> sublist p (span q) \<and> no_overlap p q"
  using assms unfolding separable_def list_all_iff by auto

lemma foldl_replace_wrap:
  "separable ps \<Longrightarrow> foldl (\<lambda>t p. replace p (span p) t) s ps = wrap_occurrences ps s"
proof (induction ps rule: rev_induct)
  case Nil
  then show ?case by (simp add: wrap_Nil)
next
  case (snoc p ps)
  note sep = separable_snoc [OF snoc.prems]
  from snoc.IH [OF sep(1)]
  have "foldl (\<lambda>t p. replace p (span p) t) s (ps @ [p]) =
          replace p (span p) (wrap_occurrences ps s)" by simp
  also have "\<dots> = wrap_occurrences (ps @ [p]) s" using sep(2-5) by (rule replace_wrap)
  finally show ?case .
qed

lemma separable_marked_forms: "separable marked_forms"
  by code_simp

lemma capitalize_words:
  "map capitalize suspicious_words =
     [''Urgent'', ''Verify'', ''Click'', ''Password'', ''Bank'', ''Account'', ''Login'', ''Confirm'']"
  by code_simp

lemma highlight_fold:
  "highlight s = foldl (\<lambda>t p. replace p (span p) t) s marked_forms"
  using capitalize_words
  by (simp add: highlight_def highlight_word_def suspicious_words_def marked_forms_def)

lemma highlight_wrap: "highlight s = wrap_occurrences marked_forms s"
  unfolding highlight_fold by (rule foldl_replace_wrap) (rule separable_marked_forms)

lemma marked_forms_lower: "\<forall>q\<in>set marked_forms. \<exists>c\<in>set q. is_az c"
  by code_simp

lemma wrap_no_lower:
  "\<forall>c\<in>set s. \<not> is_az c \<Longrightarrow> wrap_occurrences marked_forms s = s"
proof (induction s)
  case Nil
  then show ?case by simp
next
  case (Cons c cs)
  have "q = [] \<or> \<not> prefix q (c # cs)" if "q \<in> set marked_forms" for q
  proof (rule disjI2, rule notI)
    assume "prefix q (c # cs)"
    then have "set q \<subseteq> set (c # cs)" by (rule set_mono_prefix)
    moreover from that marked_forms_lower obtain a where "a \<in> set q" "is_az a" by blast
    ultimately show False using Cons.prems by blast
  qed
  then have "occurs_at marked_forms (c # cs) = None" unfolding occurs_at_None by blast
  moreover from Cons have "wrap_occurrences marked_forms cs = cs" by simp
  ultimately show ?case by simp
qed

lemma span_markup: "span word = ''<span class='highlight'>'' @ word @ ''</span>''"
  by (simp add: span_def)

lemma highlight_example:
  "highlight ''VERIFY now: Verify your account'' =
     ''VERIFY now: <span class='highlight'>Verify</span> your <span class='highlight'>account</span>''"
  by code_simp

text \<open>
  C3. The highlighted text of a POST is the submitted text itself, not the cleaned one:
  unchanged when the predicted label is not FRAUD, and otherwise the submitted text with
  exactly the occurrences of the lowercase and the capitalized form of each suspicious
  word wrapped, as one pass from the left finds them, each occurrence \<open>w\<close> becoming
  \<open><span class='highlight'>w</span>\<close>. A text without a lowercase letter, such as an
  all-caps \<open>VERIFY\<close>, comes back unchanged, and so does an all-caps \<open>VERIFY\<close> next to
  occurrences that are wrapped.
\<close>

theorem home_highlighting:
  assumes "map_of frm ''email'' = Some email_text"
  shows "\<exists>db' page. home model POST frm db = Inr (db', page) \<and>
           page_highlighted_text page =
             (if predict model (clean_text email_text) = ''FRAUD''
              then wrap_occurrences marked_forms email_text else email_text) \<and>
           ((\<forall>c\<in>set email_text. \<not> is_az c) \<longrightarrow> page_highlighted_text page = email_text) \<and>
           (\<forall>w. span w = ''<span class='highlight'>'' @ w @ ''</span>'') \<and>
           (email_text = ''VERIFY now: Verify your account'' \<and>
            predict model (clean_text email_text) = ''FRAUD'' \<longrightarrow>
              page_highlighted_text page =
                ''VERIFY now: <span class='highlight'>Verify</span> your <span class='highlight'>account</span>'')"
proof -
  let ?h = "if predict model (clean_text email_text) = ''FRAUD''
            then highlight email_text else email_text"
  from assms have e: "\<exists>db' page. home model POST frm db = Inr (db', page) \<and>
                        page_highlighted_text page = ?h"
    by (simp add: home_def Let_def)
  have a: "?h = (if predict model (clean_text email_text) = ''FRAUD''
                 then wrap_occurrences marked_forms email_text else email_text)"
    by (simp add: highlight_wrap)
  have b: "(\<forall>c\<in>set email_text. \<not> is_az c) \<longrightarrow> ?h = email_text"
    by (simp add: highlight_wrap wrap_no_lower)
  have c: "\<forall>w. span w = ''<span class='highlight'>'' @ w @ ''</span>''"
    using span_markup by blast
  have d: "email_text = ''VERIFY now: Verify your account'' \<and>
           predict model (clean_text email_text) = ''FRAUD'' \<longrightarrow>
           ?h = ''VERIFY now: <span class='highlight'>Verify</span> your <span class='highlight'>account</span>''"
    using highlight_example by auto
  from e obtain db' page where
    "home model POST frm db = Inr (db', page)" "page_highlighted_text page = ?h"
    by blast
  with a b c d show ?thesis by metis
qed

theorem home_highlighting_witness:
  "\<exists>db' page.
     home stub_model POST [(''email'', ''VERIFY now: Verify your account'')]
       (init_db :: nat database) = Inr (db', page) \<and>
     page_highlighted_text page =
       ''VERIFY now: <span class='highlight'>Verify</span> your <span class='highlight'>account</span>''"
proof -
  have 1: "map_of [(''email'', ''VERIFY now: Verify your account'')] ''email'' =
             Some ''VERIFY now: Verify your account''"
    by simp
  have 2: "predict stub_model (clean_text ''VERIFY now: Verify your account'') = ''FRAUD''"
    by code_simp
  from home_highlighting [OF 1, of stub_model "init_db :: nat database"] 2
  show ?thesis by blast
qed

section \<open>Properties of the detector\<close>

lemma clean_text_Nil: "clean_text [] = []"
  by (simp add: clean_text_def lower_def sub_nonalpha_def strip_def)

lemma highlight_Nil: "highlight [] = []"
  by (simp add: highlight_def suspicious_words_def highlight_word_def upper_char_def)

text \<open>
  C9. A GET of \<open>/\<close> leaves the database as it is, both tables included, and renders
  the page with no result, no confidence, and an empty text and highlighted text.
\<close>

theorem home_get_frame:
  "home model GET frm db =
     Inr (db, \<lparr>page_result = None, page_confidence = None,
               page_email_text = [], page_highlighted_text = []\<rparr>)"
  by (simp add: home_def)

text \<open>
  C2 as stated fails: a POST whose form has no \<open>email\<close> field is rejected with the
  bad-request error of \<open>request.form["email"]\<close>, which a POST with an empty
  \<open>email\<close> field is not.
\<close>

theorem home_missing_email_rejected:
  "home stub_model POST [] init_db = Inl (BadRequestKeyError ''email'') \<and>
   home stub_model POST [] init_db \<noteq> home stub_model POST [(''email'', [])] init_db"
  by (simp add: home_def Let_def)

text \<open>
  C2 (as amended). A POST whose \<open>email\<close> field is the empty string is handled like any
  other submission: the empty text is cleaned to the empty text, classified, and one row
  with the empty text is inserted. A POST without the field fails with the bad-request
  error before anything is classified or stored.
\<close>

theorem home_empty_or_missing_email:
  "(map_of frm ''email'' = Some [] \<longrightarrow>
      home model POST frm db =
        Inr (insert_scan db [] (predict model []) (predict_conf model []),
             \<lparr>page_result = Some (predict model []),
              page_confidence = Some (predict_conf model []),
              page_email_text = [], page_highlighted_text = []\<rparr>)) \<and>
   (map_of frm ''email'' = None \<longrightarrow>
      home model POST frm db = Inl (BadRequestKeyError ''email''))"
  by (simp add: home_def clean_text_Nil highlight_Nil Let_def)

theorem home_empty_or_missing_email_witness:
  "home stub_model POST [(''email'', [])] init_db =
     Inr (insert_scan init_db [] ''SAFE'' 0,
          \<lparr>page_result = Some ''SAFE'', page_confidence = Some 0,
           page_email_text = [], page_highlighted_text = []\<rparr>) \<and>
   home stub_model POST [(''choice'', ''SAFE'')] init_db = Inl (BadRequestKeyError ''email'')"
  using home_empty_or_missing_email [of "[(''email'', [])]" stub_model init_db]
    home_empty_or_missing_email [of "[(''choice'', ''SAFE'')]" stub_model init_db]
  by (simp add: stub_model_def)


lemma home_post:
  "map_of frm ''email'' = Some e \<Longrightarrow>
   \<exists>page. home model POST frm db =
     Inr (insert_scan db e (predict model (clean_text e)) (predict_conf model (clean_text e)),
          page)"
  by (simp add: home_def Let_def)

lemma run_home_submits:
  assumes "sorted (map scan_id (scans db))" and "\<forall>r\<in>set (scans db). scan_id r \<le> scans_seq db"
  shows "\<exists>db'. run_home model (map submit es) db = Inr db' \<and>
     map (\<lambda>r. (email r, result r, confidence r)) (scans db') =
       map (\<lambda>r. (email r, result r, confidence r)) (scans db) @
       map (\<lambda>e. (e, predict model (clean_text e), predict_conf model (clean_text e))) es \<and>
     sorted (map scan_id (scans db')) \<and>
     game_scores db' = game_scores db \<and> game_scores_seq db' = game_scores_seq db"
  using assms
proof (induction es arbitrary: db)
  case Nil
  then show ?case by simp
next
  case (Cons e es)
  let ?d = "insert_scan db e (predict model (clean_text e)) (predict_conf model (clean_text e))"
  obtain page where h: "home model POST [(''email'', e)] db = Inr (?d, page)"
    using home_post [of "[(''email'', e)]" e model db] by auto
  have 1: "sorted (map scan_id (scans ?d))"
    using Cons.prems by (auto simp: insert_scan_def sorted_append le_Suc_eq)
  have 2: "\<forall>r\<in>set (scans ?d). scan_id r \<le> scans_seq ?d"
    using Cons.prems by (auto simp: insert_scan_def le_Suc_eq)
  from Cons.IH [OF 1 2] obtain db' where
    r: "run_home model (map submit es) ?d = Inr db'" and
    s: "map (\<lambda>r. (email r, result r, confidence r)) (scans db') =
       map (\<lambda>r. (email r, result r, confidence r)) (scans ?d) @
       map (\<lambda>e. (e, predict model (clean_text e), predict_conf model (clean_text e))) es" and
    q: "sorted (map scan_id (scans db'))" and
    g: "game_scores db' = game_scores ?d" "game_scores_seq db' = game_scores_seq ?d"
    by blast
  have 3: "run_home model (map submit (e # es)) db = Inr db'"
    using h r by (simp add: submit_def)
  have 4: "map (\<lambda>r. (email r, result r, confidence r)) (scans db') =
       map (\<lambda>r. (email r, result r, confidence r)) (scans db) @
       map (\<lambda>e. (e, predict model (clean_text e), predict_conf model (clean_text e))) (e # es)"
    unfolding s by (simp add: insert_scan_def)
  have 5: "game_scores db' = game_scores db" "game_scores_seq db' = game_scores_seq db"
    using g by (simp_all add: insert_scan_def)
  from 3 4 q 5 show ?case by blast
qed

text \<open>
  C6. A POST of \<open>/\<close> with text \<open>e\<close> appends exactly one row to \<open>scans\<close>, holding
  \<open>e\<close> as submitted, the predicted label and the confidence of the cleaned text. After the
  submissions \<open>es\<close> on a new database the table has \<open>length es\<close> rows, one per
  submission in order, and the listing by id descending gives them in reverse order of
  submission.
\<close>

theorem scan_persistence:
  "(map_of frm ''email'' = Some e \<longrightarrow>
      (\<exists>page. home model POST frm db =
         Inr (db\<lparr>scans := scans db @
                    [\<lparr>scan_id = Suc (scans_seq db), email = e,
                      result = predict model (clean_text e),
                      confidence = predict_conf model (clean_text e)\<rparr>],
                 scans_seq := Suc (scans_seq db)\<rparr>, page))) \<and>
   (\<exists>db'. run_home model (map submit es) init_db = Inr db' \<and>
      length (scans db') = length es \<and>
      map (\<lambda>r. (email r, result r, confidence r)) (scans db') =
        map (\<lambda>e. (e, predict model (clean_text e), predict_conf model (clean_text e))) es \<and>
      history db' =
        rev (map (\<lambda>e. (e, predict model (clean_text e), predict_conf model (clean_text e))) es))"
proof
  show "map_of frm ''email'' = Some e \<longrightarrow>
      (\<exists>page. home model POST frm db =
         Inr (db\<lparr>scans := scans db @
                    [\<lparr>scan_id = Suc (scans_seq db), email = e,
                      result = predict model (clean_text e),
                      confidence = predict_conf model (clean_text e)\<rparr>],
                 scans_seq := Suc (scans_seq db)\<rparr>, page))"
    using home_post [of frm e model db] by (simp add: insert_scan_def)
next
  let ?row = "\<lambda>e. (e, predict model (clean_text e), predict_conf model (clean_text e))"
  let ?db = "init_db :: 'a database"
  have "sorted (map scan_id (scans ?db))" and "\<forall>r\<in>set (scans ?db). scan_id r \<le> scans_seq ?db"
    by (simp_all add: init_db_def)
  from run_home_submits [OF this, of model es] obtain db' where
    r: "run_home model (map submit es) ?db = Inr db'" and
    s: "map (\<lambda>r. (email r, result r, confidence r)) (scans db') = map ?row es" and
    q: "sorted (map scan_id (scans db'))"
    by (auto simp: init_db_def)
  from q have 1: "sort_key scan_id (scans db') = scans db'" by (rule sort_key_id_if_sorted)
  have "length (map (\<lambda>r. (email r, result r, confidence r)) (scans db')) = length (map ?row es)"
    by (simp only: s)
  then have 3: "length (scans db') = length es" by (simp only: length_map)
  have 4: "history db' = rev (map ?row es)"
    unfolding history_def 1 by (simp only: rev_map [symmetric] s)
  from r s 3 4 show "\<exists>db'. run_home model (map submit es) init_db = Inr db' \<and>
      length (scans db') = length es \<and>
      map (\<lambda>r. (email r, result r, confidence r)) (scans db') = map ?row es \<and>
      history db' = rev (map ?row es)"
    by blast
qed

theorem scan_persistence_witness:
  "\<exists>page. home stub_model POST [(''email'', ''Verify now'')] init_db =
     Inr ((init_db :: nat database)
            \<lparr>scans := scans (init_db :: nat database) @
                    [\<lparr>scan_id = Suc (scans_seq (init_db :: nat database)),
                      email = ''Verify now'',
                      result = predict stub_model (clean_text ''Verify now''),
                      confidence = predict_conf stub_model (clean_text ''Verify now'')\<rparr>],
                 scans_seq := Suc (scans_seq (init_db :: nat database))\<rparr>, page)"
proof -
  have h: "map_of [(''email'', ''Verify now'')] ''email'' = Some ''Verify now''" by simp
  show ?thesis
    by (rule scan_persistence [of "[(''email'', ''Verify now'')]" "''Verify now''" stub_model
          init_db "[]", THEN conjunct1, THEN mp, OF h])
qed

section \<open>Properties of the training game\<close>

lemma level_of_cases:
  "(sc < 3 \<longrightarrow> level_of sc = ''Beginner'') \<and>
   (3 \<le> sc \<and> sc < 6 \<longrightarrow> level_of sc = ''Intermediate'') \<and>
   (6 \<le> sc \<longrightarrow> level_of sc = ''Expert'')"
  by (simp add: level_of_def)

lemma game_Inr:
  assumes "game pick meth frm sess db = Inr (sess', db', page)"
  shows "\<exists>sc tot. sess' ''score'' = Some sc \<and> sess' ''total'' = Some tot \<and>
           db' = append_game_score db sc tot (level_of sc) \<and>
           page_score page = sc \<and> page_total page = tot \<and> page_level page = level_of sc"
  using assms
  by (auto simp: game_def insert_game_score_def Let_def
      split: sum.splits option.splits prod.splits if_splits)

text \<open>
  C4. The level shown on the page and the level written to \<open>game_scores\<close> are decided
  by the score of the session after the request alone: Beginner below 3, Intermediate
  from 3 to 5, Expert from 6 on, with no upper bound.
\<close>

theorem game_level:
  assumes "game pick meth frm sess db = Inr (sess', db', page)"
  shows "\<exists>sc. sess' ''score'' = Some sc \<and> page_score page = sc \<and>
           game_scores db' \<noteq> [] \<and> score (last (game_scores db')) = sc \<and>
           (sc < 3 \<longrightarrow>
              page_level page = ''Beginner'' \<and> level (last (game_scores db')) = ''Beginner'') \<and>
           (3 \<le> sc \<and> sc < 6 \<longrightarrow>
              page_level page = ''Intermediate'' \<and>
              level (last (game_scores db')) = ''Intermediate'') \<and>
           (6 \<le> sc \<longrightarrow>
              page_level page = ''Expert'' \<and> level (last (game_scores db')) = ''Expert'') \<and>
           level_of 2 = ''Beginner'' \<and> level_of 3 = ''Intermediate'' \<and>
           level_of 5 = ''Intermediate'' \<and> level_of 6 = ''Expert''"
proof -
  from game_Inr [OF assms] obtain sc tot where
    h: "sess' ''score'' = Some sc" "db' = append_game_score db sc tot (level_of sc)"
       "page_score page = sc" "page_level page = level_of sc"
    by blast
  have "game_scores db' \<noteq> []" "score (last (game_scores db')) = sc"
       "level (last (game_scores db')) = level_of sc"
    using h(2) by (simp_all add: append_game_score_def)
  moreover have "level_of 2 = ''Beginner'' \<and> level_of 3 = ''Intermediate'' \<and>
           level_of 5 = ''Intermediate'' \<and> level_of 6 = ''Expert''"
    by (simp add: level_of_def)
  ultimately show ?thesis using h level_of_cases [of sc] by auto
qed


theorem game_level_witness:
  "\<exists>sess' db' page.
     game 0 POST [(''choice'', ''SAFE''), (''correct'', ''SAFE''), (''reason'', ''ok'')]
       [''score'' \<mapsto> 2, ''total'' \<mapsto> 2] (init_db :: nat database) = Inr (sess', db', page) \<and>
     sess' ''score'' = Some 3 \<and> page_level page = ''Intermediate'' \<and>
     level (last (game_scores db')) = ''Intermediate''"
proof -
  have "\<exists>sess' db' page.
     game 0 POST [(''choice'', ''SAFE''), (''correct'', ''SAFE''), (''reason'', ''ok'')]
       [''score'' \<mapsto> 2, ''total'' \<mapsto> 2] (init_db :: nat database) = Inr (sess', db', page) \<and>
     sess' ''score'' = Some 3"
    by (simp add: game_def grade_def session_start_def insert_game_score_def sqlite_int_def
        Let_def)
  then obtain sess' db' page where
    e: "game 0 POST [(''choice'', ''SAFE''), (''correct'', ''SAFE''), (''reason'', ''ok'')]
       [''score'' \<mapsto> 2, ''total'' \<mapsto> 2] (init_db :: nat database) = Inr (sess', db', page)" and
    s: "sess' ''score'' = Some 3"
    by blast
  from game_level [OF e] s have
    "page_level page = ''Intermediate'' \<and> level (last (game_scores db')) = ''Intermediate''"
    by auto
  with e s show ?thesis by blast
qed

lemma game_graded_post:
  assumes "graded_post (Game pick meth frm)"
    and "sess ''score'' = Some sc" and "sess ''total'' = Some t"
    and "0 \<le> sc" and "sc \<le> t" and "t + 1 < 2 ^ 63"
  shows "\<exists>sess' page sc'. game pick meth frm sess db =
           Inr (sess', append_game_score db sc' (t + 1) (level_of sc'), page) \<and>
         sess' ''score'' = Some sc' \<and> sess' ''total'' = Some (t + 1) \<and>
         sc' = (if answered_correctly (Game pick meth frm) then sc + 1 else sc)"
  using assms
  by (auto simp: game_def grade_def session_start_def insert_game_score_def sqlite_int_def
      Let_def)

lemma run_game_posts:
  assumes "\<forall>q\<in>set reqs. graded_post q"
    and "sess ''score'' = Some sc" and "sess ''total'' = Some t" and "0 \<le> sc" and "sc \<le> t"
    and "\<forall>row\<in>set (game_scores db). 0 \<le> score row \<and> score row \<le> total row"
    and "t + int (length reqs) < 2 ^ 63"
  shows "\<exists>sess' db'. run_game reqs sess db = Inr (sess', db') \<and>
           sess' ''score'' = Some (sc + int (length (filter answered_correctly reqs))) \<and>
           sess' ''total'' = Some (t + int (length reqs)) \<and>
           (\<forall>row\<in>set (game_scores db'). 0 \<le> score row \<and> score row \<le> total row)"
  using assms
proof (induction reqs arbitrary: sess db sc t)
  case Nil
  then show ?case by simp
next
  case (Cons q reqs)
  from Cons.prems(1) have gq: "graded_post q" by simp
  then obtain pick meth frm where q: "q = Game pick meth frm" by (cases q) auto
  from Cons.prems(7) have t1: "t + 1 < 2 ^ 63" by simp
  from game_graded_post [OF gq [unfolded q] Cons.prems(2,3,4,5) t1, of db]
  obtain sess1 page sc1 where
    g: "game pick meth frm sess db =
          Inr (sess1, append_game_score db sc1 (t + 1) (level_of sc1), page)" and
    s1: "sess1 ''score'' = Some sc1" "sess1 ''total'' = Some (t + 1)" and
    c: "sc1 = (if answered_correctly q then sc + 1 else sc)"
    unfolding q by blast
  let ?d = "append_game_score db sc1 (t + 1) (level_of sc1)"
  from c Cons.prems(4,5) have b: "0 \<le> sc1" "sc1 \<le> t + 1" by (auto split: if_splits)
  have r: "\<forall>row\<in>set (game_scores ?d). 0 \<le> score row \<and> score row \<le> total row"
    using Cons.prems(6) b by (auto simp: append_game_score_def)
  from Cons.prems(1) have rest: "\<forall>q\<in>set reqs. graded_post q" by simp
  from Cons.prems(7) have bound: "t + 1 + int (length reqs) < 2 ^ 63" by simp
  from Cons.IH [OF rest s1 b r bound] obtain sess' db' where
    "run_game reqs sess1 ?d = Inr (sess', db')"
    "sess' ''score'' = Some (sc1 + int (length (filter answered_correctly reqs)))"
    "sess' ''total'' = Some (t + 1 + int (length reqs))"
    "\<forall>row\<in>set (game_scores db'). 0 \<le> score row \<and> score row \<le> total row"
    by blast
  moreover have "t + 1 + int (length reqs) = t + int (length (q # reqs))" by simp
  moreover have "sc1 + int (length (filter answered_correctly reqs)) =
                 sc + int (length (filter answered_correctly (q # reqs)))"
    using c by simp
  moreover have "run_game (q # reqs) sess db = run_game reqs sess1 ?d"
    using g by (simp add: q)
  ultimately show ?case by metis
qed

text \<open>
  C5. From the session \<open>{score: 0, total: 0}\<close> and a new database, after each of the
  POSTs of a sequence of graded POSTs (that is, after the first \<open>n\<close> of them, for every
  \<open>n\<close>; fewer than \<open>2 ^ 63\<close> of them, so that the counters fit the INTEGER columns) the run
  has not failed, \<open>total\<close> counts the POSTs and \<open>score\<close> those whose choice
  equals the correct answer, so the session has \<open>0 \<le> score \<le> total\<close>, and every row of
  \<open>game_scores\<close> has \<open>0 \<le> score \<le> total\<close>.
\<close>

theorem game_invariant:
  assumes "\<forall>q\<in>set reqs. graded_post q" and "length (take n reqs) < 2 ^ 63"
  shows "\<exists>sess db sc tot.
           run_game (take n reqs) [''score'' \<mapsto> 0, ''total'' \<mapsto> 0] (init_db :: 'c database) =
             Inr (sess, db) \<and>
           sess ''score'' = Some sc \<and> sess ''total'' = Some tot \<and>
           sc = int (length (filter answered_correctly (take n reqs))) \<and>
           tot = int (length (take n reqs)) \<and> 0 \<le> sc \<and> sc \<le> tot \<and>
           (\<forall>row\<in>set (game_scores db). 0 \<le> score row \<and> score row \<le> total row)"
proof -
  let ?s = "[''score'' \<mapsto> 0 :: int, ''total'' \<mapsto> 0]"
  from assms(1) have 1: "\<forall>q\<in>set (take n reqs). graded_post q" by (auto dest: in_set_takeD)
  have 2: "?s ''score'' = Some 0" "?s ''total'' = Some 0" "(0::int) \<le> 0" by simp_all
  have 3: "\<forall>row\<in>set (game_scores (init_db :: 'c database)).
             0 \<le> score row \<and> score row \<le> total row"
    by (simp add: init_db_def)
  from assms(2) have 4: "0 + int (length (take n reqs)) < 2 ^ 63"
    by (simp del: length_take add: of_nat_less_numeral_power_cancel_iff)
  from run_game_posts [OF 1 2(1,2,3,3) 3 4, unfolded add_0] obtain sess db where
    r: "run_game (take n reqs) ?s (init_db :: 'c database) = Inr (sess, db)"
       "sess ''score'' = Some (int (length (filter answered_correctly (take n reqs))))"
       "sess ''total'' = Some (int (length (take n reqs)))"
       "\<forall>row\<in>set (game_scores db). 0 \<le> score row \<and> score row \<le> total row"
    by blast
  have "int (length (filter answered_correctly (take n reqs))) \<le> int (length (take n reqs))"
    by (simp del: length_take)
  with r show ?thesis by (auto simp del: length_take)
qed


lemma game_get_overflow:
  assumes "sess ''score'' = Some sc" and "sess ''total'' = Some tot"
    and "\<not> (sqlite_int sc \<and> sqlite_int tot)"
  shows "game pick GET frm sess db = Inl OverflowError"
  using assms by (auto simp: game_def session_start_def insert_game_score_def Let_def)

text \<open>
  C10. Whatever the requests of a session are, every row they append to \<open>game_scores\<close>
  has the level that the thresholds give for the score of that same row.
\<close>

theorem game_rows_consistent:
  assumes "run_game reqs sess db = Inr (sess', db')"
  shows "\<exists>new. game_scores db' = game_scores db @ new \<and>
           (\<forall>row\<in>set new.
              level row =
                (if score row < 3 then ''Beginner''
                 else if score row < 6 then ''Intermediate'' else ''Expert''))"
  using assms
proof (induction reqs sess db rule: run_game.induct)
  case (1 sess db)
  then show ?case by simp
next
  case (2 pick meth frm reqs sess db)
  from "2.prems" obtain s1 d1 p1 where
    g: "game pick meth frm sess db = Inr (s1, d1, p1)" and
    r: "run_game reqs s1 d1 = Inr (sess', db')"
    by (auto split: sum.splits)
  from game_Inr [OF g] obtain sc tot where
    d: "d1 = append_game_score db sc tot (level_of sc)" by blast
  from "2.IH" [OF g refl refl r] obtain new where
    n: "game_scores db' = game_scores d1 @ new" and
    a: "\<forall>row\<in>set new.
              level row =
                (if score row < 3 then ''Beginner''
                 else if score row < 6 then ''Intermediate'' else ''Expert'')"
    by blast
  let ?row = "\<lparr>game_id = Suc (game_scores_seq db), score = sc, total = tot, level = level_of sc\<rparr>"
  have "game_scores db' = game_scores db @ (?row # new)"
    using n d by (simp add: append_game_score_def)
  moreover have "\<forall>row\<in>set (?row # new).
              level row =
                (if score row < 3 then ''Beginner''
                 else if score row < 6 then ''Intermediate'' else ''Expert'')"
    using a by (simp add: level_of_def)
  ultimately show ?case by blast
next
  case (3 reqs sess db)
  then show ?case by simp
qed


theorem game_invariant_witness:
  "\<exists>sess db sc tot.
     run_game (take 2
        [Game 0 POST [(''choice'', ''SAFE''), (''correct'', ''SAFE''), (''reason'', ''ok'')],
         Game 1 POST [(''choice'', ''SAFE''), (''correct'', ''FRAUD''), (''reason'', ''no'')]])
       [''score'' \<mapsto> 0, ''total'' \<mapsto> 0] (init_db :: nat database) = Inr (sess, db) \<and>
     sess ''score'' = Some sc \<and> sess ''total'' = Some tot \<and> sc = 1 \<and> tot = 2 \<and>
     (\<forall>row\<in>set (game_scores db). 0 \<le> score row \<and> score row \<le> total row)"
proof -
  have "\<forall>q\<in>set
        [Game 0 POST [(''choice'', ''SAFE''), (''correct'', ''SAFE''), (''reason'', ''ok'')],
         Game 1 POST [(''choice'', ''SAFE''), (''correct'', ''FRAUD''), (''reason'', ''no'')]].
        graded_post q"
    by simp
  moreover have "length (take 2
        [Game 0 POST [(''choice'', ''SAFE''), (''correct'', ''SAFE''), (''reason'', ''ok'')],
         Game 1 POST [(''choice'', ''SAFE''), (''correct'', ''FRAUD''), (''reason'', ''no'')]])
        < 2 ^ 63"
    by simp
  ultimately have "\<exists>sess db sc tot.
     run_game (take 2
        [Game 0 POST [(''choice'', ''SAFE''), (''correct'', ''SAFE''), (''reason'', ''ok'')],
         Game 1 POST [(''choice'', ''SAFE''), (''correct'', ''FRAUD''), (''reason'', ''no'')]])
       [''score'' \<mapsto> 0, ''total'' \<mapsto> 0] (init_db :: nat database) = Inr (sess, db) \<and>
     sess ''score'' = Some sc \<and> sess ''total'' = Some tot \<and>
     sc = int (length (filter answered_correctly (take 2
        [Game 0 POST [(''choice'', ''SAFE''), (''correct'', ''SAFE''), (''reason'', ''ok'')],
         Game 1 POST [(''choice'', ''SAFE''), (''correct'', ''FRAUD''), (''reason'', ''no'')]]))) \<and>
     tot = int (length (take 2
        [Game 0 POST [(''choice'', ''SAFE''), (''correct'', ''SAFE''), (''reason'', ''ok'')],
         Game 1 POST [(''choice'', ''SAFE''), (''correct'', ''FRAUD''), (''reason'', ''no'')]])) \<and>
     0 \<le> sc \<and> sc \<le> tot \<and>
     (\<forall>row\<in>set (game_scores db). 0 \<le> score row \<and> score row \<le> total row)"
    by (rule game_invariant)
  then show ?thesis by simp
qed


theorem game_rows_consistent_witness:
  "\<exists>sess' db' new.
     run_game [Game 0 GET [], ResetGame,
               Game 1 POST [(''choice'', ''SAFE''), (''correct'', ''SAFE''), (''reason'', ''ok'')]]
       Map.empty (init_db :: nat database) = Inr (sess', db') \<and>
     game_scores db' = game_scores (init_db :: nat database) @ new \<and>
     (\<forall>row\<in>set new.
        level row =
          (if score row < 3 then ''Beginner''
           else if score row < 6 then ''Intermediate'' else ''Expert''))"
proof -
  have "\<exists>sess' db'.
     run_game [Game 0 GET [], ResetGame,
               Game 1 POST [(''choice'', ''SAFE''), (''correct'', ''SAFE''), (''reason'', ''ok'')]]
       Map.empty (init_db :: nat database) = Inr (sess', db')"
    by (simp add: game_def grade_def session_start_def reset_game_def insert_game_score_def
        sqlite_int_def Let_def)
  then obtain sess' db' where
    e: "run_game [Game 0 GET [], ResetGame,
               Game 1 POST [(''choice'', ''SAFE''), (''correct'', ''SAFE''), (''reason'', ''ok'')]]
       Map.empty (init_db :: nat database) = Inr (sess', db')"
    by blast
  from game_rows_consistent [OF e] e show ?thesis by blast
qed

end
